theory Spec2Isabelle
  imports Main "HOL-Library.Word"
begin

section \<open>The runtime's byte buffers\<close>

text \<open>
  \<^verbatim>\<open>song-detector.js\<close> keeps its audio in a Node \<^verbatim>\<open>Buffer\<close>. A \<^verbatim>\<open>Buffer\<close> is a view
  (base, byte offset, length) onto an array of bytes, and two views may share their array:
  \<^verbatim>\<open>slice\<close> returns a view onto the array of its receiver. The store is therefore
  explicit: the heap is the list of the byte arrays allocated so far, an address is an
  index into it, and allocation appends a new array.
\<close>

type_synonym byte = "8 word"
type_synonym addr = nat
type_synonym heap = "byte list list"

record buffer =
  base :: addr
  byteOffset :: nat
  len :: nat

datatype error = ERR_OUT_OF_RANGE

definition contents :: "heap \<Rightarrow> buffer \<Rightarrow> byte list" where
  "contents h b = take (len b) (drop (byteOffset b) (h ! base b))"

text \<open>\<^verbatim>\<open>Buffer.alloc(size)\<close>: a new zero-filled array and the view of all of it.\<close>

definition Buffer_alloc :: "heap \<Rightarrow> int \<Rightarrow> buffer \<times> heap" where
  "Buffer_alloc h cap =
     (\<lparr>base = length h, byteOffset = 0, len = nat cap\<rparr>, h @ [replicate (nat cap) 0])"

text \<open>
  \<^verbatim>\<open>buf.slice(start, end)\<close>: both indices are clamped into the receiver's range, a
  negative index counts from the end, and an \<^verbatim>\<open>end\<close> that is left out is the receiver's
  length. The result shares the receiver's array.
\<close>

definition adjustOffset :: "int \<Rightarrow> int \<Rightarrow> int" where
  "adjustOffset offset length' =
     (if offset = 0 then 0
      else if offset < 0 then (if offset + length' > 0 then offset + length' else 0)
      else if offset < length' then offset
      else length')"

definition Buffer_slice :: "buffer \<Rightarrow> int \<Rightarrow> int option \<Rightarrow> buffer" where
  "Buffer_slice b start end' =
     (let srcLength = int (len b);
          start' = adjustOffset start srcLength;
          end'' = (case end' of Some e \<Rightarrow> adjustOffset e srcLength | None \<Rightarrow> srcLength);
          newLength = (if end'' > start' then end'' - start' else 0)
      in \<lparr>base = base b, byteOffset = byteOffset b + nat start', len = nat newLength\<rparr>)"

text \<open>
  \<^verbatim>\<open>source.copy(target, targetStart, sourceStart, sourceEnd)\<close>. The bytes of the source
  are read first and are an argument here. A negative index and a \<^verbatim>\<open>sourceStart\<close> beyond
  the source raise a range error; a range that does not fit is cut to the room the
  target has left; nothing is copied when \<^verbatim>\<open>targetStart\<close> is at or beyond the end of
  the target or the source range is empty.
\<close>

definition copyActual :: "byte list \<Rightarrow> byte list \<Rightarrow> int \<Rightarrow> int \<Rightarrow> int \<Rightarrow> byte list" where
  "copyActual source target targetStart sourceStart sourceEnd =
     (let sourceEnd' =
            (if sourceEnd - sourceStart > int (length target) - targetStart
             then sourceStart + int (length target) - targetStart else sourceEnd);
          nb = sourceEnd' - sourceStart;
          sourceLen = int (length source) - sourceStart;
          nb' = (if nb > sourceLen then sourceLen else nb);
          bytes = take (nat nb') (drop (nat sourceStart) source)
      in take (nat targetStart) target @ bytes @ drop (nat targetStart + length bytes) target)"

definition Buffer_copy ::
  "heap \<Rightarrow> byte list \<Rightarrow> buffer \<Rightarrow> int \<Rightarrow> int option \<Rightarrow> int option \<Rightarrow> error + heap" where
  "Buffer_copy h source target targetStart sourceStart sourceEnd =
     (if targetStart < 0 then Inl ERR_OUT_OF_RANGE
      else
        let sourceStart' = (case sourceStart of None \<Rightarrow> 0 | Some v \<Rightarrow> v) in
        if sourceStart' < 0 \<or> sourceStart' > int (length source) then Inl ERR_OUT_OF_RANGE
        else
          let sourceEnd' = (case sourceEnd of None \<Rightarrow> int (length source) | Some v \<Rightarrow> v) in
          if sourceEnd' < 0 then Inl ERR_OUT_OF_RANGE
          else if targetStart \<ge> int (len target) \<or> sourceStart' \<ge> sourceEnd' then Inr h
          else
            let arr = h ! base target;
                window = take (len target) (drop (byteOffset target) arr);
                window' = copyActual source window targetStart sourceStart' sourceEnd'
            in Inr (h[base target :=
                      take (byteOffset target) arr @ window' @
                      drop (byteOffset target + len target) arr]))"

text \<open>
  The remainder operator \<^verbatim>\<open>%\<close> truncates towards zero: the result has the sign of the
  dividend. (For a zero divisor JavaScript gives \<^verbatim>\<open>NaN\<close>, which is no integer; the
  divisor is the positive \<^verbatim>\<open>BUFFER_SIZE\<close> throughout.)
\<close>

definition js_rem :: "int \<Rightarrow> int \<Rightarrow> int" where
  "js_rem a b = sgn a * (\<bar>a\<bar> mod \<bar>b\<bar>)"

section \<open>The circular buffer\<close>

text \<open>
  The module's variables \<^verbatim>\<open>circularBuffer\<close> and \<^verbatim>\<open>writeOffset\<close>, with the heap they live
  in. \<^verbatim>\<open>BUFFER_SIZE\<close> is a constant of the module
  (\<^verbatim>\<open>SAMPLE_RATE * CHANNELS * BYTES_PER_SAMPLE * BUFFER_SECONDS\<close>); the functions below
  take it as their first argument, so that they can be run at small capacities too.
\<close>

definition SAMPLE_RATE :: int where "SAMPLE_RATE = 44100"
definition CHANNELS :: int where "CHANNELS = 1"
definition BYTES_PER_SAMPLE :: int where "BYTES_PER_SAMPLE = 2"
definition BUFFER_SECONDS :: int where "BUFFER_SECONDS = 4"

definition BUFFER_SIZE :: int where
  "BUFFER_SIZE = SAMPLE_RATE * CHANNELS * BYTES_PER_SAMPLE * BUFFER_SECONDS"

record state =
  heap :: heap
  circularBuffer :: buffer
  writeOffset :: int

text \<open>
  The module's initialisation: \<^verbatim>\<open>let circularBuffer = Buffer.alloc(BUFFER_SIZE);
  let writeOffset = 0;\<close>
\<close>

definition init :: "int \<Rightarrow> state" where
  "init cap =
     (let (b, h) = Buffer_alloc [] cap
      in \<lparr>heap = h, circularBuffer = b, writeOffset = 0\<rparr>)"

definition getSnapshot :: "int \<Rightarrow> state \<Rightarrow> error + (buffer \<times> state)" where
  "getSnapshot cap s =
     (let (snapshot, h0) = Buffer_alloc (heap s) cap;
          endPart = Buffer_slice (circularBuffer s) (writeOffset s) None;
          startPart = Buffer_slice (circularBuffer s) 0 (Some (writeOffset s))
      in case Buffer_copy h0 (contents h0 endPart) snapshot 0 None None of
           Inl e \<Rightarrow> Inl e
         | Inr h1 \<Rightarrow>
             (case Buffer_copy h1 (contents h1 startPart) snapshot (int (len endPart)) None None of
                Inl e \<Rightarrow> Inl e
              | Inr h2 \<Rightarrow> Inr (snapshot, s\<lparr>heap := h2\<rparr>)))"

text \<open>
  The loop of \<^verbatim>\<open>writeChunkToCircularBuffer\<close>, on the loop variables \<^verbatim>\<open>remaining\<close> and
  \<^verbatim>\<open>chunkOffset\<close>. Nothing in the loop itself bounds the number of its iterations, so
  the result is optional: \<open>None\<close> is a loop that never ends.
\<close>

partial_function (option) write_loop ::
  "int \<Rightarrow> byte list \<Rightarrow> int \<Rightarrow> int \<Rightarrow> state \<Rightarrow> (error + state) option" where
  "write_loop cap chunk remaining chunkOffset s =
     (if remaining > 0 then
        let spaceUntilEnd = cap - writeOffset s;
            bytesToWrite = min spaceUntilEnd remaining
        in case Buffer_copy (heap s) chunk (circularBuffer s) (writeOffset s)
                  (Some chunkOffset) (Some (chunkOffset + bytesToWrite)) of
             Inl e \<Rightarrow> Some (Inl e)
           | Inr h' \<Rightarrow>
               write_loop cap chunk (remaining - bytesToWrite) (chunkOffset + bytesToWrite)
                 (s\<lparr>heap := h', writeOffset := js_rem (writeOffset s + bytesToWrite) cap\<rparr>)
      else Some (Inr s))"

declare write_loop.simps [code]

definition writeChunkToCircularBuffer :: "int \<Rightarrow> byte list \<Rightarrow> state \<Rightarrow> (error + state) option" where
  "writeChunkToCircularBuffer cap chunk s = write_loop cap chunk (int (length chunk)) 0 s"

text \<open>
  The capture session hands every chunk of the stream to the buffer, in arrival order:
  \<^verbatim>\<open>ffmpegProcess.stdout.on('data', (chunk) => { writeChunkToCircularBuffer(chunk); })\<close>.
\<close>

fun on_data :: "int \<Rightarrow> byte list list \<Rightarrow> state \<Rightarrow> (error + state) option" where
  "on_data cap [] s = Some (Inr s)"
| "on_data cap (chunk # chunks) s =
     (case writeChunkToCircularBuffer cap chunk s of
        None \<Rightarrow> None
      | Some (Inl e) \<Rightarrow> Some (Inl e)
      | Some (Inr s') \<Rightarrow> on_data cap chunks s')"

text \<open>\<open>n\<close> calls of \<^verbatim>\<open>getSnapshot()\<close> in a row, their results dropped.\<close>

fun snapshots :: "nat \<Rightarrow> int \<Rightarrow> state \<Rightarrow> error + state" where
  "snapshots 0 cap s = Inr s"
| "snapshots (Suc n) cap s =
     (case getSnapshot cap s of Inl e \<Rightarrow> Inl e | Inr (snapshot, s') \<Rightarrow> snapshots n cap s')"

section \<open>The orchestration\<close>

text \<open>
  \<^verbatim>\<open>main\<close> queries the current input device, and then, inside \<^verbatim>\<open>try\<close>, switches the
  input to the capture device, starts the recording, waits for the warm-up and for a key,
  takes the snapshot and hands it to the recognition; its \<^verbatim>\<open>finally\<close> block kills the
  capture process when there is one, switches the input back and exits.

  What the collaborators do is a parameter: each stage returns, throws, or the process is
  terminated from outside while it is at that stage. The module installs no signal
  handler, so a terminated process runs nothing more, its \<^verbatim>\<open>finally\<close> blocks included.
  The observable behaviour is the trace of the device switches, of the start and the end
  of the capture process and of the process's exit.
\<close>

datatype outcome = Returns | Throws | Killed

datatype stage =
  Route | Spawn | WarmUp | Keypress | TakeSnapshot | Recognize | StopCapture | Restore

datatype event = SwitchInput string | StartFfmpeg | KillFfmpeg | Exit nat

record process =
  trace :: "event list"
  ffmpegProcess :: bool

definition BLACKHOLE_NAME :: string where
  "BLACKHOLE_NAME = ''BlackHole 2ch''"

text \<open>
  \<^verbatim>\<open>switchInput(device)\<close> catches whatever \<^verbatim>\<open>execSync\<close> throws and logs it: the call
  returns in both cases.
\<close>

definition switchInput :: "(stage \<Rightarrow> outcome) \<Rightarrow> stage \<Rightarrow> string \<Rightarrow> process \<Rightarrow> process \<times> outcome" where
  "switchInput env st device p =
     (case env st of
        Killed \<Rightarrow> (p, Killed)
      | _ \<Rightarrow> (p\<lparr>trace := trace p @ [SwitchInput device]\<rparr>, Returns))"

text \<open>
  \<^verbatim>\<open>startContinuousRecording()\<close>: \<^verbatim>\<open>ffmpegProcess = exec(cmd, ...)\<close>; when \<^verbatim>\<open>exec\<close>
  throws, the variable keeps its \<^verbatim>\<open>null\<close>.
\<close>

definition startContinuousRecording :: "(stage \<Rightarrow> outcome) \<Rightarrow> process \<Rightarrow> process \<times> outcome" where
  "startContinuousRecording env p =
     (case env Spawn of
        Killed \<Rightarrow> (p, Killed)
      | Throws \<Rightarrow> (p, Throws)
      | Returns \<Rightarrow> (p\<lparr>trace := trace p @ [StartFfmpeg], ffmpegProcess := True\<rparr>, Returns))"

text \<open>A stage that leaves no event: the two waits, the snapshot, the recognition.\<close>

definition perform :: "(stage \<Rightarrow> outcome) \<Rightarrow> stage \<Rightarrow> process \<Rightarrow> process \<times> outcome" where
  "perform env st p = (p, env st)"

text \<open>Sequencing: the next statement runs when the one before it has returned.\<close>

definition and_then ::
  "process \<times> outcome \<Rightarrow> (process \<Rightarrow> process \<times> outcome) \<Rightarrow> process \<times> outcome" where
  "and_then r f = (case r of (p, Returns) \<Rightarrow> f p | (p, out) \<Rightarrow> (p, out))"

definition try_block :: "(stage \<Rightarrow> outcome) \<Rightarrow> process \<Rightarrow> process \<times> outcome" where
  "try_block env p =
     and_then (and_then (and_then (and_then (and_then
       (switchInput env Route BLACKHOLE_NAME p)
       (startContinuousRecording env))
       (perform env WarmUp))
       (perform env Keypress))
       (perform env TakeSnapshot))
       (perform env Recognize)"

text \<open>
  \<^verbatim>\<open>if (ffmpegProcess) { ffmpegProcess.kill('SIGINT'); } switchInput(originalInput);
  process.exit(0);\<close> The \<^verbatim>\<open>kill\<close> tells a failure by its result and the module does
  not read it.
\<close>

definition finally_block :: "(stage \<Rightarrow> outcome) \<Rightarrow> string \<Rightarrow> process \<Rightarrow> process" where
  "finally_block env originalInput p =
     (case (if ffmpegProcess p
            then (case env StopCapture of
                    Killed \<Rightarrow> (p, Killed)
                  | _ \<Rightarrow> (p\<lparr>trace := trace p @ [KillFfmpeg]\<rparr>, Returns))
            else (p, Returns)) of
        (p1, Returns) \<Rightarrow>
          (case switchInput env Restore originalInput p1 of
             (p2, Returns) \<Rightarrow> p2\<lparr>trace := trace p2 @ [Exit 0]\<rparr>
           | (p2, _) \<Rightarrow> p2)
      | (p1, _) \<Rightarrow> p1)"

text \<open>
  \<^verbatim>\<open>getCurrentInput()\<close> gives the device's name, or, when \<^verbatim>\<open>SwitchAudioSource\<close>
  fails, logs and calls \<^verbatim>\<open>process.exit(1)\<close>: the first argument is \<open>None\<close> then.
\<close>

definition main :: "string option \<Rightarrow> (stage \<Rightarrow> outcome) \<Rightarrow> event list" where
  "main getCurrentInput env =
     (case getCurrentInput of
        None \<Rightarrow> [Exit 1]
      | Some originalInput \<Rightarrow>
          (case try_block env \<lparr>trace = [], ffmpegProcess = False\<rparr> of
             (p, Killed) \<Rightarrow> trace p
           | (p, _) \<Rightarrow> trace (finally_block env originalInput p)))"

text \<open>The run in which every stage returns.\<close>

definition uneventful :: "stage \<Rightarrow> outcome" where
  "uneventful st = Returns"

section \<open>Reference definitions for the proofs\<close>

text \<open>
  The bytes a buffer's view shows with a run of them replaced, the well-formed states of
  the circular buffer, the write of a single byte, and the buffer's bytes read from the
  write offset around.
\<close>

definition overwrite :: "heap \<Rightarrow> buffer \<Rightarrow> nat \<Rightarrow> byte list \<Rightarrow> heap" where
  "overwrite h t p bytes =
     h[base t := take (byteOffset t + p) (h ! base t) @ bytes @
                 drop (byteOffset t + p + length bytes) (h ! base t)]"

definition valid :: "int \<Rightarrow> state \<Rightarrow> bool" where
  "valid cap s \<longleftrightarrow>
     0 < cap \<and> base (circularBuffer s) < length (heap s) \<and> len (circularBuffer s) = nat cap \<and>
     byteOffset (circularBuffer s) + len (circularBuffer s)
       \<le> length (heap s ! base (circularBuffer s)) \<and>
     0 \<le> writeOffset s \<and> writeOffset s < cap"

definition put_byte :: "int \<Rightarrow> byte \<Rightarrow> state \<Rightarrow> state" where
  "put_byte cap b s =
     s\<lparr>heap := overwrite (heap s) (circularBuffer s) (nat (writeOffset s)) [b],
       writeOffset := (writeOffset s + 1) mod cap\<rparr>"

definition put_bytes :: "int \<Rightarrow> byte list \<Rightarrow> state \<Rightarrow> state" where
  "put_bytes cap bs s = fold (put_byte cap) bs s"

definition storage :: "state \<Rightarrow> byte list" where
  "storage s = contents (heap s) (circularBuffer s)"

definition chrono :: "state \<Rightarrow> byte list" where
  "chrono s = drop (nat (writeOffset s)) (storage s) @ take (nat (writeOffset s)) (storage s)"

section \<open>Properties of the buffers\<close>

lemma drop_within_take:
  assumes "n \<le> length w" "m \<le> n"
  shows "drop m (take n w) @ drop n w = drop m w"
proof -
  have "drop m (take n w @ drop n w) = drop m (take n w) @ drop (m - length (take n w)) (drop n w)"
    by (rule drop_append)
  moreover have "m - length (take n w) = 0" using assms by simp
  ultimately show ?thesis by simp
qed

lemma window_splice:
  assumes "bo + n \<le> length arr" "p + k \<le> n"
  shows "take bo arr @ (take p (take n (drop bo arr)) @ seg @ drop (p + k) (take n (drop bo arr))) @ drop (bo + n) arr
       = take (bo + p) arr @ seg @ drop (bo + p + k) arr"
proof -
  have a: "take bo arr @ take p (take n (drop bo arr)) = take (bo + p) arr"
    using assms by (simp add: take_add min_def)
  have "drop (p + k) (take n (drop bo arr)) @ drop n (drop bo arr) = drop (p + k) (drop bo arr)"
    using assms by (intro drop_within_take) simp_all
  then have b: "drop (p + k) (take n (drop bo arr)) @ drop (bo + n) arr = drop (bo + p + k) arr"
    by (simp add: add.commute add.left_commute)
  show ?thesis using a b by (metis append.assoc)
qed

lemma Buffer_copy_fits:
  assumes "byteOffset t + len t \<le> length (h ! base t)"
    and "ss = (case sourceStart of None \<Rightarrow> 0 | Some v \<Rightarrow> v)"
    and "se = (case sourceEnd of None \<Rightarrow> int (length src) | Some v \<Rightarrow> v)"
    and "0 \<le> ts" "0 \<le> ss" "ss \<le> se" "se \<le> int (length src)" "ts + (se - ss) \<le> int (len t)"
  shows "Buffer_copy h src t ts sourceStart sourceEnd
       = Inr (overwrite h t (nat ts) (take (nat (se - ss)) (drop (nat ss) src)))"
proof (cases "se = ss \<or> ts \<ge> int (len t)")
  case True
  then have k0: "se = ss" using assms by auto
  have "overwrite h t (nat ts) [] = h"
    by (simp add: overwrite_def)
  then show ?thesis using assms(4-) k0
    by (simp add: Buffer_copy_def assms(2)[symmetric] assms(3)[symmetric])
next
  case False
  define seg where "seg = take (nat (se - ss)) (drop (nat ss) src)"
  define w where "w = take (len t) (drop (byteOffset t) (h ! base t))"
  have lseg: "length seg = nat (se - ss)" using assms(4-) by (simp add: seg_def)
  have lw: "int (length w) = int (len t)" using assms(1) by (simp add: w_def)
  have c1: "\<not> se - ss > int (length w) - ts" using assms(8) lw by linarith
  have c2: "\<not> se - ss > int (length src) - ss" using assms(7) by linarith
  have ca: "copyActual src w ts ss se = take (nat ts) w @ seg @ drop (nat ts + nat (se - ss)) w"
    unfolding copyActual_def Let_def using c1 c2 lseg by (simp add: seg_def[symmetric])
  have "nat ts + nat (se - ss) \<le> len t" using assms(4-) by linarith
  from window_splice[OF assms(1) this, of seg]
  have ws: "take (byteOffset t) (h ! base t) @
        (take (nat ts) w @ seg @ drop (nat ts + nat (se - ss)) w) @
        drop (byteOffset t + len t) (h ! base t)
      = take (byteOffset t + nat ts) (h ! base t) @ seg @
        drop (byteOffset t + nat ts + nat (se - ss)) (h ! base t)"
    by (simp add: w_def)
  have "Buffer_copy h src t ts sourceStart sourceEnd
      = Inr (h[base t := take (byteOffset t) (h ! base t) @ copyActual src w ts ss se @
                         drop (byteOffset t + len t) (h ! base t)])"
    using assms(4-) False
    by (simp add: Buffer_copy_def Let_def w_def assms(2)[symmetric] assms(3)[symmetric])
  also have "\<dots> = Inr (overwrite h t (nat ts) seg)"
    by (simp only: ca ws overwrite_def lseg)
  finally show ?thesis by (simp only: seg_def)
qed

lemma Buffer_copy_all:
  assumes "byteOffset t + len t \<le> length (h ! base t)" "ts + length src \<le> len t"
  shows "Buffer_copy h src t (int ts) None None = Inr (overwrite h t ts src)"
  using Buffer_copy_fits[where sourceStart = None and sourceEnd = None and ss = 0
      and se = "int (length src)" and ts = "int ts" and t = t and h = h and src = src] assms
  by simp

lemma length_overwrite [simp]: "length (overwrite h t p bs) = length h"
  by (simp add: overwrite_def)

lemma overwrite_other: "a \<noteq> base t \<Longrightarrow> overwrite h t p bs ! a = h ! a"
  by (simp add: overwrite_def)

lemma overwrite_row:
  "base t < length h \<Longrightarrow> overwrite h t p bs ! base t =
     take (byteOffset t + p) (h ! base t) @ bs @ drop (byteOffset t + p + length bs) (h ! base t)"
  by (simp add: overwrite_def)

lemma length_overwrite_row:
  "base t < length h \<Longrightarrow> byteOffset t + p + length bs \<le> length (h ! base t) \<Longrightarrow>
   length (overwrite h t p bs ! base t) = length (h ! base t)"
  by (simp add: overwrite_row)

lemma overwrite_overwrite:
  assumes "base t < length h" "byteOffset t + p + length xs + length ys \<le> length (h ! base t)"
  shows "overwrite (overwrite h t p xs) t (p + length xs) ys = overwrite h t p (xs @ ys)"
proof -
  let ?arr = "h ! base t" and ?q = "byteOffset t + p"
  let ?arr' = "take ?q ?arr @ xs @ drop (?q + length xs) ?arr"
  have t: "take (?q + length xs) ?arr' = take ?q ?arr @ xs"
    using assms by (cases xs) (simp_all add: min_def)
  have d: "drop (?q + length xs + length ys) ?arr' = drop (?q + length xs + length ys) ?arr"
    using assms by (cases xs) (simp_all add: min_def add.commute add.left_commute)
  have "overwrite (overwrite h t p xs) t (p + length xs) ys
      = h[base t := take (?q + length xs) ?arr' @ ys @ drop (?q + length xs + length ys) ?arr']"
    using assms(1) by (simp add: overwrite_def add.assoc)
  also have "\<dots> = h[base t := (take ?q ?arr @ xs) @ ys @ drop (?q + length xs + length ys) ?arr]"
    by (simp only: t d)
  finally show ?thesis by (simp add: overwrite_def add.assoc)
qed

lemma valid_put_byte: "valid cap s \<Longrightarrow> valid cap (put_byte cap b s)"
  by (auto simp: valid_def put_byte_def overwrite_row nat_less_iff min_def)

lemma valid_put_bytes: "valid cap s \<Longrightarrow> valid cap (put_bytes cap bs s)"
  unfolding put_bytes_def by (induction bs arbitrary: s) (simp_all add: valid_put_byte)

lemma put_bytes_segment:
  assumes "valid cap s" "int (length xs) \<le> cap - writeOffset s"
  shows "put_bytes cap xs s =
         s\<lparr>heap := overwrite (heap s) (circularBuffer s) (nat (writeOffset s)) xs,
           writeOffset := (writeOffset s + int (length xs)) mod cap\<rparr>"
  using assms(2)
proof (induction xs rule: rev_induct)
  case Nil
  have "overwrite (heap s) (circularBuffer s) (nat (writeOffset s)) [] = heap s"
    by (simp add: overwrite_def)
  then show ?case using assms(1) by (simp add: put_bytes_def valid_def)
next
  case (snoc x xs)
  let ?s1 = "s\<lparr>heap := overwrite (heap s) (circularBuffer s) (nat (writeOffset s)) xs,
           writeOffset := writeOffset s + int (length xs)\<rparr>"
  from snoc have lt: "writeOffset s + int (length xs) < cap" by simp
  with snoc assms(1) have ih: "put_bytes cap xs s = ?s1" by (simp add: valid_def)
  have n: "nat (writeOffset s + int (length xs)) = nat (writeOffset s) + length xs"
    using assms(1) by (simp add: valid_def nat_add_distrib)
  have "byteOffset (circularBuffer s) + nat (writeOffset s) + length xs + length [x]
        \<le> length (heap s ! base (circularBuffer s))"
    using assms(1) lt by (simp add: valid_def) linarith
  with assms(1) have ow: "overwrite (overwrite (heap s) (circularBuffer s) (nat (writeOffset s)) xs)
           (circularBuffer s) (nat (writeOffset s) + length xs) [x]
      = overwrite (heap s) (circularBuffer s) (nat (writeOffset s)) (xs @ [x])"
    by (intro overwrite_overwrite) (simp_all add: valid_def)
  have "put_bytes cap (xs @ [x]) s = put_byte cap x (put_bytes cap xs s)"
    by (simp add: put_bytes_def)
  also have "\<dots> = put_byte cap x ?s1" by (simp only: ih)
  also have "\<dots> = s\<lparr>heap := overwrite (heap s) (circularBuffer s) (nat (writeOffset s)) (xs @ [x]),
           writeOffset := (writeOffset s + int (length (xs @ [x]))) mod cap\<rparr>"
    by (simp add: put_byte_def n ow; simp add: ac_simps)
  finally show ?case .
qed

lemma js_rem_nonneg: "0 \<le> a \<Longrightarrow> 0 < b \<Longrightarrow> js_rem a b = a mod b"
  by (cases "a = 0") (simp_all add: js_rem_def)

lemma put_bytes_append: "put_bytes cap (xs @ ys) s = put_bytes cap ys (put_bytes cap xs s)"
  by (simp add: put_bytes_def)

lemma write_loop_put_bytes:
  assumes "valid cap s" "0 \<le> chunkOffset" "chunkOffset + int n = int (length chunk)"
  shows "write_loop cap chunk (int n) chunkOffset s
       = Some (Inr (put_bytes cap (drop (nat chunkOffset) chunk) s))"
  using assms
proof (induction n arbitrary: chunkOffset s rule: less_induct)
  case (less n)
  show ?case
  proof (cases "n = 0")
    case True
    with less.prems have "drop (nat chunkOffset) chunk = []" by simp
    with True show ?thesis
      by (subst write_loop.simps) (simp add: put_bytes_def)
  next
    case False
    define k where "k = min (cap - writeOffset s) (int n)"
    have v: "0 < cap" "0 \<le> writeOffset s" "writeOffset s < cap"
      using less.prems(1) by (simp_all add: valid_def)
    have k: "0 < k" "k \<le> int n" "k \<le> cap - writeOffset s"
      using False v by (simp_all add: k_def)
    define seg where "seg = take (nat k) (drop (nat chunkOffset) chunk)"
    have lseg: "int (length seg) = k"
      using k less.prems by (simp add: seg_def)
    have cp: "Buffer_copy (heap s) chunk (circularBuffer s) (writeOffset s)
                (Some chunkOffset) (Some (chunkOffset + k))
            = Inr (overwrite (heap s) (circularBuffer s) (nat (writeOffset s)) seg)"
    proof -
      have "Buffer_copy (heap s) chunk (circularBuffer s) (writeOffset s)
                (Some chunkOffset) (Some (chunkOffset + k))
          = Inr (overwrite (heap s) (circularBuffer s) (nat (writeOffset s))
                  (take (nat (chunkOffset + k - chunkOffset)) (drop (nat chunkOffset) chunk)))"
        using less.prems k v
        by (intro Buffer_copy_fits) (simp_all add: valid_def)
      then show ?thesis by (simp add: seg_def)
    qed
    define s1 where "s1 = s\<lparr>heap := overwrite (heap s) (circularBuffer s) (nat (writeOffset s)) seg,
                             writeOffset := js_rem (writeOffset s + k) cap\<rparr>"
    have s1: "s1 = put_bytes cap seg s"
      using put_bytes_segment[OF less.prems(1), of seg] k v lseg
      by (simp add: s1_def js_rem_nonneg)
    then have v1: "valid cap s1" using less.prems(1) by (simp add: valid_put_bytes)
    have nk: "int (n - nat k) = int n - k" using k by simp
    have "write_loop cap chunk (int (n - nat k)) (chunkOffset + k) s1
        = Some (Inr (put_bytes cap (drop (nat (chunkOffset + k)) chunk) s1))"
      using less.prems k v1 False by (intro less.IH) simp_all
    moreover have "drop (nat (chunkOffset + k)) chunk = drop (nat k) (drop (nat chunkOffset) chunk)"
      using less.prems(2) k by (simp add: nat_add_distrib add.commute)
    moreover have "put_bytes cap (drop (nat chunkOffset) chunk) s
        = put_bytes cap (drop (nat k) (drop (nat chunkOffset) chunk)) (put_bytes cap seg s)"
      unfolding seg_def put_bytes_append[symmetric] by (simp only: append_take_drop_id)
    ultimately have rec: "write_loop cap chunk (int n - k) (chunkOffset + k) s1
        = Some (Inr (put_bytes cap (drop (nat chunkOffset) chunk) s))"
      by (simp add: nk s1)
    have "write_loop cap chunk (int n) chunkOffset s
        = write_loop cap chunk (int n - k) (chunkOffset + k) s1"
      using False by (subst write_loop.simps) (simp add: Let_def k_def[symmetric] cp s1_def)
    with rec show ?thesis by simp
  qed
qed

lemma writeChunk_put_bytes:
  "valid cap s \<Longrightarrow> writeChunkToCircularBuffer cap chunk s = Some (Inr (put_bytes cap chunk s))"
  using write_loop_put_bytes[of cap s 0 "length chunk" chunk]
  by (simp add: writeChunkToCircularBuffer_def)

lemma overwrite_single:
  assumes "base t < length h" "byteOffset t + p < length (h ! base t)"
  shows "overwrite h t p [b] = h[base t := (h ! base t)[byteOffset t + p := b]]"
  using assms by (simp add: overwrite_def upd_conv_take_nth_drop)

lemma storage_put_byte:
  assumes "valid cap s"
  shows "storage (put_byte cap b s) = (storage s)[nat (writeOffset s) := b]"
proof -
  let ?t = "circularBuffer s" and ?p = "nat (writeOffset s)"
  have p: "?p < len ?t" using assms by (simp add: valid_def nat_less_iff)
  with assms have r: "byteOffset ?t + ?p < length (heap s ! base ?t)" by (auto simp: valid_def)
  have b: "base ?t < length (heap s)" using assms by (simp add: valid_def)
  have "storage (put_byte cap b s)
      = take (len ?t) (drop (byteOffset ?t) ((heap s ! base ?t)[byteOffset ?t + ?p := b]))"
    using b by (simp add: storage_def put_byte_def contents_def overwrite_single[OF b r])
  also have "\<dots> = (take (len ?t) (drop (byteOffset ?t) (heap s ! base ?t)))[?p := b]"
    by (simp add: drop_update_swap take_update_swap)
  finally show ?thesis by (simp add: storage_def contents_def)
qed

lemma length_storage: "valid cap s \<Longrightarrow> length (storage s) = nat cap"
  by (auto simp: storage_def contents_def valid_def)

lemma length_chrono: "valid cap s \<Longrightarrow> length (chrono s) = nat cap"
  using length_storage[of cap s] by (simp add: chrono_def valid_def nat_le_iff)

lemma rotate_update:
  assumes "p < length st"
  shows "drop (Suc p mod length st) (st[p := b]) @ take (Suc p mod length st) (st[p := b])
       = tl (drop p st @ take p st) @ [b]"
proof (cases "Suc p = length st")
  case True
  then have "st[p := b] = take p st @ [b]"
    by (simp add: upd_conv_take_nth_drop)
  moreover have "drop p st = [st ! p]"
    using True by (metis Cons_nth_drop_Suc assms drop_all order_refl)
  ultimately show ?thesis using True by simp
next
  case False
  with assms have lt: "Suc p < length st" by simp
  have "drop p st = st ! p # drop (Suc p) st"
    using assms by (simp add: Cons_nth_drop_Suc)
  moreover have "take (Suc p) (st[p := b]) = take p st @ [b]"
    using assms by (simp add: take_Suc_conv_app_nth)
  ultimately show ?thesis using lt by simp
qed

lemma chrono_put_byte:
  assumes "valid cap s"
  shows "chrono (put_byte cap b s) = tl (chrono s) @ [b]"
proof -
  let ?p = "nat (writeOffset s)"
  have l: "length (storage s) = nat cap" using assms by (rule length_storage)
  have p: "?p < length (storage s)" using assms l by (simp add: valid_def nat_less_iff)
  have w: "nat (writeOffset (put_byte cap b s)) = Suc ?p mod length (storage s)"
    using assms l by (simp add: put_byte_def valid_def nat_mod_distrib nat_add_distrib)
  show ?thesis
    unfolding chrono_def storage_put_byte[OF assms] w
    using rotate_update[OF p, of b] by simp
qed

lemma chrono_put_bytes:
  "valid cap s \<Longrightarrow> chrono (put_bytes cap bs s) = drop (length bs) (chrono s @ bs)"
proof (induction bs arbitrary: s)
  case Nil
  then show ?case by (simp add: put_bytes_def)
next
  case (Cons b bs)
  have ne: "chrono s \<noteq> []" using length_chrono[OF Cons.prems] Cons.prems
    by (auto simp: valid_def)
  have "chrono (put_bytes cap (b # bs) s) = chrono (put_bytes cap bs (put_byte cap b s))"
    by (simp add: put_bytes_def)
  also have "\<dots> = drop (length bs) (chrono (put_byte cap b s) @ bs)"
    using Cons.prems by (intro Cons.IH valid_put_byte)
  also have "\<dots> = drop (length bs) (tl (chrono s @ b # bs))"
    using ne by (simp add: chrono_put_byte[OF Cons.prems])
  finally show ?case by (simp only: length_Cons drop_Suc)
qed

lemma put_byte_frame:
  "circularBuffer (put_byte cap b s) = circularBuffer s"
  "length (heap (put_byte cap b s)) = length (heap s)"
  "a \<noteq> base (circularBuffer s) \<Longrightarrow> heap (put_byte cap b s) ! a = heap s ! a"
  by (simp_all add: put_byte_def overwrite_other)

lemma put_bytes_frame:
  "circularBuffer (put_bytes cap bs s) = circularBuffer s \<and>
   length (heap (put_bytes cap bs s)) = length (heap s) \<and>
   (a \<noteq> base (circularBuffer s) \<longrightarrow> heap (put_bytes cap bs s) ! a = heap s ! a)"
  unfolding put_bytes_def by (induction bs arbitrary: s) (simp_all add: put_byte_frame)

lemma Buffer_slice_from:
  assumes "0 \<le> start" "start < int (len b)"
  shows "Buffer_slice b start None =
         \<lparr>base = base b, byteOffset = byteOffset b + nat start, len = len b - nat start\<rparr>"
  using assms by (simp add: Buffer_slice_def adjustOffset_def Let_def nat_diff_distrib)

lemma Buffer_slice_upto:
  assumes "0 \<le> end'" "end' < int (len b)"
  shows "Buffer_slice b 0 (Some end') = \<lparr>base = base b, byteOffset = byteOffset b, len = nat end'\<rparr>"
  using assms by (simp add: Buffer_slice_def adjustOffset_def Let_def)

lemma getSnapshot_chrono:
  assumes "valid cap s"
  shows "getSnapshot cap s =
         Inr (\<lparr>base = length (heap s), byteOffset = 0, len = nat cap\<rparr>,
              s\<lparr>heap := heap s @ [chrono s]\<rparr>)"
proof -
  define cb where "cb = circularBuffer s"
  define p where "p = nat (writeOffset s)"
  define st where "st = storage s"
  define sn where "sn = \<lparr>base = length (heap s), byteOffset = 0, len = nat cap\<rparr>"
  define h0 where "h0 = heap s @ [replicate (nat cap) (0::byte)]"
  define endPart where "endPart = \<lparr>base = base cb, byteOffset = byteOffset cb + p, len = nat cap - p\<rparr>"
  define startPart where "startPart = \<lparr>base = base cb, byteOffset = byteOffset cb, len = p\<rparr>"
  have v: "0 < cap" "base cb < length (heap s)" "len cb = nat cap"
    "byteOffset cb + nat cap \<le> length (heap s ! base cb)" "0 \<le> writeOffset s" "writeOffset s < cap"
    using assms by (simp_all add: valid_def cb_def)
  have p: "p < nat cap" "int p = writeOffset s" using v by (simp_all add: p_def nat_less_iff)
  have lst: "length st = nat cap" using assms by (simp add: st_def length_storage)
  have st: "st = take (nat cap) (drop (byteOffset cb) (heap s ! base cb))"
    using v by (simp add: st_def storage_def contents_def cb_def)
  have al: "Buffer_alloc (heap s) cap = (sn, h0)"
    by (simp add: Buffer_alloc_def sn_def h0_def)
  have e: "Buffer_slice (circularBuffer s) (writeOffset s) None = endPart"
    using Buffer_slice_from[of "writeOffset s" cb] v
    by (simp add: endPart_def cb_def[symmetric] p_def)
  have b: "Buffer_slice (circularBuffer s) 0 (Some (writeOffset s)) = startPart"
    using Buffer_slice_upto[of "writeOffset s" cb] v
    by (simp add: startPart_def cb_def[symmetric] p_def)
  have ce: "contents h0 endPart = drop p st"
    using v by (simp add: contents_def endPart_def h0_def nth_append st drop_take add.commute)
  have c1: "Buffer_copy h0 (drop p st) sn 0 None None = Inr (heap s @ [drop p st @ replicate p 0])"
  proof -
    have "Buffer_copy h0 (drop p st) sn (int 0) None None = Inr (overwrite h0 sn 0 (drop p st))"
      using lst by (intro Buffer_copy_all) (simp_all add: sn_def h0_def)
    moreover have "overwrite h0 sn 0 (drop p st) = heap s @ [drop p st @ replicate p 0]"
      using p(1) lst by (simp add: overwrite_def sn_def h0_def)
    ultimately show ?thesis by simp
  qed
  define h1 where "h1 = heap s @ [drop p st @ replicate p (0::byte)]"
  have cs: "contents h1 startPart = take p st"
    using v p by (simp add: contents_def startPart_def h1_def nth_append st min_def)
  have c2: "Buffer_copy h1 (take p st) sn (int (len endPart)) None None
          = Inr (heap s @ [drop p st @ take p st])"
  proof -
    have "Buffer_copy h1 (take p st) sn (int (len endPart)) None None
        = Inr (overwrite h1 sn (len endPart) (take p st))"
      using p(1) lst by (intro Buffer_copy_all) (simp_all add: sn_def h1_def endPart_def)
    moreover have "overwrite h1 sn (len endPart) (take p st) = heap s @ [drop p st @ take p st]"
      using p(1) lst by (simp add: overwrite_def sn_def h1_def endPart_def min_def)
    ultimately show ?thesis by simp
  qed
  have "chrono s = drop p st @ take p st" by (simp add: chrono_def p_def st_def)
  then show ?thesis
    unfolding getSnapshot_def al e b
    by (simp add: ce c1 h1_def[symmetric] cs c2; simp add: sn_def)
qed

lemma Buffer_copy_no_error:
  assumes "0 \<le> ts" "0 \<le> ss" "ss \<le> int (length src)" "0 \<le> se"
  shows "\<exists>h'. Buffer_copy h src t ts (Some ss) (Some se) = Inr h' \<and> length h' = length h"
  using assms by (simp add: Buffer_copy_def Let_def)

lemma write_loop_offset:
  assumes "0 < cap" "0 \<le> writeOffset s" "writeOffset s < cap"
    and "0 \<le> chunkOffset" "chunkOffset + int n = int (length chunk)"
  shows "\<exists>s'. write_loop cap chunk (int n) chunkOffset s = Some (Inr s') \<and>
              writeOffset s' = (writeOffset s + int n) mod cap \<and>
              circularBuffer s' = circularBuffer s \<and> length (heap s') = length (heap s)"
  using assms(2-)
proof (induction n arbitrary: chunkOffset s rule: less_induct)
  case (less n)
  show ?case
  proof (cases "n = 0")
    case True
    with less.prems assms(1) show ?thesis
      by (subst write_loop.simps) simp
  next
    case False
    define k where "k = min (cap - writeOffset s) (int n)"
    have k: "0 < k" "k \<le> int n" "k \<le> cap - writeOffset s"
      using False less.prems by (simp_all add: k_def)
    obtain h' where cp: "Buffer_copy (heap s) chunk (circularBuffer s) (writeOffset s)
                (Some chunkOffset) (Some (chunkOffset + k)) = Inr h'" and lh: "length h' = length (heap s)"
      using Buffer_copy_no_error[of "writeOffset s" chunkOffset chunk "chunkOffset + k"] less.prems k
      by fastforce
    define s1 where "s1 = s\<lparr>heap := h', writeOffset := js_rem (writeOffset s + k) cap\<rparr>"
    have w1: "writeOffset s1 = (writeOffset s + k) mod cap"
      using less.prems k assms(1) by (simp add: s1_def js_rem_nonneg)
    have nk: "int (n - nat k) = int n - k" using k by simp
    have "\<exists>s'. write_loop cap chunk (int (n - nat k)) (chunkOffset + k) s1 = Some (Inr s') \<and>
              writeOffset s' = (writeOffset s1 + int (n - nat k)) mod cap \<and>
              circularBuffer s' = circularBuffer s1 \<and> length (heap s') = length (heap s1)"
      using less.prems k assms(1) False w1 by (intro less.IH) simp_all
    then obtain s' where r: "write_loop cap chunk (int n - k) (chunkOffset + k) s1 = Some (Inr s')"
      "writeOffset s' = (writeOffset s1 + (int n - k)) mod cap"
      "circularBuffer s' = circularBuffer s1" "length (heap s') = length (heap s1)"
      unfolding nk by blast
    have "writeOffset s' = (writeOffset s + int n) mod cap"
      unfolding r(2) w1 by (simp add: mod_add_left_eq)
    moreover have "write_loop cap chunk (int n) chunkOffset s
        = write_loop cap chunk (int n - k) (chunkOffset + k) s1"
      using False by (subst write_loop.simps) (simp add: Let_def k_def[symmetric] cp s1_def)
    ultimately show ?thesis using r lh by (simp add: s1_def)
  qed
qed

lemma valid_init: "0 < cap \<Longrightarrow> valid cap (init cap)"
  by (simp add: valid_def init_def Buffer_alloc_def)

lemma chrono_init: "0 < cap \<Longrightarrow> chrono (init cap) = replicate (nat cap) 0"
  by (simp add: chrono_def storage_def contents_def init_def Buffer_alloc_def)

lemma on_data_put_bytes:
  "valid cap s \<Longrightarrow> on_data cap chunks s = Some (Inr (put_bytes cap (concat chunks) s))"
proof (induction chunks arbitrary: s)
  case Nil
  then show ?case by (simp add: put_bytes_def)
next
  case (Cons c cs)
  then show ?case
    by (simp add: writeChunk_put_bytes valid_put_bytes put_bytes_append)
qed

lemma snapshot_contents:
  assumes "valid cap s"
  shows "\<exists>snap t. getSnapshot cap s = Inr (snap, t) \<and> contents (heap t) snap = chrono s"
  using length_chrono[OF assms]
  by (simp add: getSnapshot_chrono[OF assms] contents_def)

lemma storage_of_chrono:
  assumes "valid cap s"
  shows "storage s = drop (nat cap - nat (writeOffset s)) (chrono s) @
                     take (nat cap - nat (writeOffset s)) (chrono s)"
proof -
  have "length (storage s) = nat cap" using assms by (rule length_storage)
  moreover have "nat (writeOffset s) \<le> nat cap" using assms by (auto simp: valid_def)
  ultimately show ?thesis by (simp add: chrono_def)
qed

lemma getSnapshot_frame:
  assumes "valid cap s" "getSnapshot cap s = Inr (snap, t)"
  shows "valid cap t \<and> circularBuffer t = circularBuffer s \<and> writeOffset t = writeOffset s \<and>
         storage t = storage s \<and> take (length (heap s)) (heap t) = heap s \<and>
         length (heap t) = Suc (length (heap s))"
  using assms by (auto simp: getSnapshot_chrono[OF assms(1)] valid_def storage_def contents_def nth_append)

lemma snapshots_frame:
  assumes "valid cap s"
  shows "\<exists>t. snapshots n cap s = Inr t \<and> valid cap t \<and> circularBuffer t = circularBuffer s \<and>
             writeOffset t = writeOffset s \<and> storage t = storage s \<and>
             take (length (heap s)) (heap t) = heap s"
  using assms
proof (induction n arbitrary: s)
  case 0
  then show ?case by simp
next
  case (Suc n)
  obtain snap s1 where g: "getSnapshot cap s = Inr (snap, s1)"
    using getSnapshot_chrono[OF Suc.prems] by simp
  note f = getSnapshot_frame[OF Suc.prems g]
  from f have "valid cap s1" by simp
  from Suc.IH[OF this] obtain t where t: "snapshots n cap s1 = Inr t" "valid cap t"
    "circularBuffer t = circularBuffer s1" "writeOffset t = writeOffset s1" "storage t = storage s1"
    "take (length (heap s1)) (heap t) = heap s1" by blast
  have "take (length (heap s)) (heap t) = take (length (heap s)) (take (length (heap s1)) (heap t))"
    using f by (simp add: min_def)
  also have "\<dots> = heap s" using f t(6) by simp
  finally show ?case using g t f by simp
qed

lemma writeOffset_put_bytes:
  assumes "valid cap s"
  shows "writeOffset (put_bytes cap bs s) = (writeOffset s + int (length bs)) mod cap"
proof -
  have "0 < cap" "0 \<le> writeOffset s" "writeOffset s < cap"
    using assms by (simp_all add: valid_def)
  from write_loop_offset[OF this, of 0 "length bs" bs]
  obtain s' where "writeChunkToCircularBuffer cap bs s = Some (Inr s')"
    "writeOffset s' = (writeOffset s + int (length bs)) mod cap"
    by (auto simp: writeChunkToCircularBuffer_def)
  then show ?thesis by (simp add: writeChunk_put_bytes[OF assms])
qed

lemma write_loop_total:
  assumes "0 < cap" "0 \<le> writeOffset s" "writeOffset s < cap"
  shows "\<exists>r. write_loop cap chunk remaining chunkOffset s = Some r"
  using assms(2-)
proof (induction "nat remaining" arbitrary: remaining chunkOffset s rule: less_induct)
  case less
  show ?case
  proof (cases "remaining > 0")
    case False
    then show ?thesis by (subst write_loop.simps) simp
  next
    case True
    define k where "k = min (cap - writeOffset s) remaining"
    have k: "0 < k" "k \<le> remaining" using True less.prems by (simp_all add: k_def)
    show ?thesis
    proof (cases "Buffer_copy (heap s) chunk (circularBuffer s) (writeOffset s)
                (Some chunkOffset) (Some (chunkOffset + k))")
      case (Inl e)
      with True show ?thesis
        by (subst write_loop.simps) (simp add: Let_def k_def[symmetric])
    next
      case (Inr h')
      define s1 where "s1 = s\<lparr>heap := h', writeOffset := js_rem (writeOffset s + k) cap\<rparr>"
      have "writeOffset s1 = (writeOffset s + k) mod cap"
        using less.prems k assms(1) by (simp add: s1_def js_rem_nonneg)
      then have "0 \<le> writeOffset s1" "writeOffset s1 < cap" using assms(1) by simp_all
      moreover have "nat (remaining - k) < nat remaining" using k by linarith
      ultimately have "\<exists>r. write_loop cap chunk (remaining - k) (chunkOffset + k) s1 = Some r"
        by (intro less.hyps)
      moreover have "write_loop cap chunk remaining chunkOffset s
          = write_loop cap chunk (remaining - k) (chunkOffset + k) s1"
        using True by (subst write_loop.simps) (simp add: Let_def k_def[symmetric] Inr s1_def)
      ultimately show ?thesis by simp
    qed
  qed
qed

lemma snapshot_after_put_bytes:
  assumes "valid cap s"
  shows "\<exists>snapshot t. getSnapshot cap (put_bytes cap bs s) = Inr (snapshot, t) \<and>
           contents (heap t) snapshot = drop (length bs) (chrono s @ bs)"
  using snapshot_contents[OF valid_put_bytes[OF assms], of bs] chrono_put_bytes[OF assms, of bs]
  by simp

lemma on_data_offset_range:
  assumes "0 < cap"
  shows "\<exists>s'. on_data cap chunks (init cap) = Some (Inr s') \<and>
              0 \<le> writeOffset s' \<and> writeOffset s' < cap"
proof -
  have v: "valid cap (init cap)" using assms by (rule valid_init)
  then have "valid cap (put_bytes cap (concat chunks) (init cap))" by (rule valid_put_bytes)
  then show ?thesis using on_data_put_bytes[OF v, of chunks] by (simp add: valid_def)
qed

lemma write_offset_range:
  assumes "0 < cap" "0 \<le> writeOffset s \<and> writeOffset s < cap"
  shows "\<exists>s'. writeChunkToCircularBuffer cap chunk s = Some (Inr s') \<and>
              0 \<le> writeOffset s' \<and> writeOffset s' < cap"
proof -
  from assms have a: "0 \<le> writeOffset s" "writeOffset s < cap" by simp_all
  from write_loop_offset[OF assms(1) a, of 0 "length chunk" chunk]
  obtain s' where "writeChunkToCircularBuffer cap chunk s = Some (Inr s')"
    "writeOffset s' = (writeOffset s + int (length chunk)) mod cap"
    by (auto simp: writeChunkToCircularBuffer_def)
  then show ?thesis using assms(1) by simp
qed

lemma write_after_snapshots:
  assumes "valid cap s"
  shows "\<exists>t w w' snapshot u snapshot' u'.
            snapshots n cap s = Inr t \<and>
            writeChunkToCircularBuffer cap chunk s = Some (Inr w) \<and>
            writeChunkToCircularBuffer cap chunk t = Some (Inr w') \<and>
            storage w' = storage w \<and> writeOffset w' = writeOffset w \<and>
            getSnapshot cap w = Inr (snapshot, u) \<and> getSnapshot cap w' = Inr (snapshot', u') \<and>
            contents (heap u') snapshot' = contents (heap u) snapshot"
proof -
  obtain t where t: "snapshots n cap s = Inr t" "valid cap t" "writeOffset t = writeOffset s"
    "storage t = storage s"
    using snapshots_frame[OF assms, of n] by blast
  define w where "w = put_bytes cap chunk s"
  define w' where "w' = put_bytes cap chunk t"
  have vw: "valid cap w" "valid cap w'" using assms t(2) by (simp_all add: w_def w'_def valid_put_bytes)
  have ct: "chrono t = chrono s" using t by (simp add: chrono_def)
  have c: "chrono w' = chrono w"
    by (simp add: w_def w'_def chrono_put_bytes[OF assms] chrono_put_bytes[OF t(2)] ct)
  have o: "writeOffset w' = writeOffset w"
    by (simp add: w_def w'_def writeOffset_put_bytes[OF assms] writeOffset_put_bytes[OF t(2)] t(3))
  have st: "storage w' = storage w"
    by (simp add: storage_of_chrono[OF vw(1)] storage_of_chrono[OF vw(2)] c o)
  obtain snapshot u where u: "getSnapshot cap w = Inr (snapshot, u)"
    "contents (heap u) snapshot = chrono w"
    using snapshot_contents[OF vw(1)] by blast
  obtain snapshot' u' where u': "getSnapshot cap w' = Inr (snapshot', u')"
    "contents (heap u') snapshot' = chrono w'"
    using snapshot_contents[OF vw(2)] by blast
  have wr: "writeChunkToCircularBuffer cap chunk s = Some (Inr w)"
    "writeChunkToCircularBuffer cap chunk t = Some (Inr w')"
    using assms t(2) by (simp_all add: w_def w'_def writeChunk_put_bytes)
  have e: "contents (heap u') snapshot' = contents (heap u) snapshot"
    by (simp add: u(2) u'(2) c)
  show ?thesis
    apply (rule exI[of _ t], rule exI[of _ w], rule exI[of _ w'])
    apply (rule exI[of _ snapshot], rule exI[of _ u], rule exI[of _ snapshot'], rule exI[of _ u'])
    using t(1) wr st o u(1) u'(1) e by (intro conjI)
qed

lemma try_block_trace:
  assumes "\<forall>st. env st \<noteq> Killed"
  shows "\<exists>p out pre. try_block env \<lparr>trace = [], ffmpegProcess = False\<rparr> = (p, out) \<and>
           out \<noteq> Killed \<and> trace p = SwitchInput BLACKHOLE_NAME # pre \<and> set pre \<subseteq> {StartFfmpeg}"
proof -
  have "env Route \<noteq> Killed" "env Spawn \<noteq> Killed" "env WarmUp \<noteq> Killed" "env Keypress \<noteq> Killed"
    "env TakeSnapshot \<noteq> Killed" "env Recognize \<noteq> Killed"
    using assms by simp_all
  then show ?thesis
    by (cases "env Route"; cases "env Spawn"; cases "env WarmUp"; cases "env Keypress";
        cases "env TakeSnapshot"; cases "env Recognize")
       (simp_all add: try_block_def and_then_def switchInput_def startContinuousRecording_def
          perform_def)
qed

lemma finally_block_trace:
  assumes "\<forall>st. env st \<noteq> Killed"
  shows "\<exists>mid. trace (finally_block env originalInput p) = trace p @ mid @ [SwitchInput originalInput, Exit 0] \<and>
           set mid \<subseteq> {KillFfmpeg}"
proof -
  have "env StopCapture \<noteq> Killed" "env Restore \<noteq> Killed" using assms by simp_all
  then show ?thesis
    by (cases "env StopCapture"; cases "env Restore"; cases "ffmpegProcess p")
       (simp_all add: finally_block_def switchInput_def)
qed

lemma BUFFER_SIZE_value: "BUFFER_SIZE = 352800"
  by (simp add: BUFFER_SIZE_def SAMPLE_RATE_def CHANNELS_def BYTES_PER_SAMPLE_def BUFFER_SECONDS_def)

lemma valid_module_state: "valid BUFFER_SIZE (init BUFFER_SIZE)"
  by (rule valid_init) (simp add: BUFFER_SIZE_value)

section \<open>The claims\<close>

text \<open>
  Claim C1. From every well-formed state of the circular buffer (its storage \<open>capacity\<close> bytes
  long, \<open>0 \<le> writeOffset < capacity\<close>), whether the buffer has been filled or not,
  \<^verbatim>\<open>getSnapshot\<close> returns a buffer on a newly allocated array, exactly \<open>capacity\<close> bytes
  long, that holds \<open>storage[writeOffset:capacity] ++ storage[0:writeOffset]\<close>.
\<close>

theorem snapshot_is_rotation:
  assumes "valid cap s"
  shows "\<exists>snapshot s'. getSnapshot cap s = Inr (snapshot, s') \<and>
           base snapshot = length (heap s) \<and> base snapshot \<noteq> base (circularBuffer s) \<and>
           length (contents (heap s') snapshot) = nat cap \<and>
           contents (heap s') snapshot =
             drop (nat (writeOffset s)) (storage s) @ take (nat (writeOffset s)) (storage s)"
proof -
  have "length (chrono s) = nat cap" using assms by (rule length_chrono)
  moreover have "base (circularBuffer s) < length (heap s)" using assms by (simp add: valid_def)
  ultimately show ?thesis
    by (simp add: getSnapshot_chrono[OF assms] contents_def) (simp add: chrono_def)
qed

theorem snapshot_is_rotation_witness:
  "valid 4 \<lparr>heap = [[10, 20, 30, 40]], circularBuffer = \<lparr>base = 0, byteOffset = 0, len = 4\<rparr>,
            writeOffset = 1\<rparr> \<and>
   (\<exists>snapshot s'.
      getSnapshot 4 \<lparr>heap = [[10, 20, 30, 40]],
                     circularBuffer = \<lparr>base = 0, byteOffset = 0, len = 4\<rparr>, writeOffset = 1\<rparr>
        = Inr (snapshot, s') \<and>
      base snapshot = 1 \<and> contents (heap s') snapshot = [20, 30, 40, 10])"
proof -
  let ?s = "\<lparr>heap = [[10, 20, 30, 40 :: byte]],
             circularBuffer = \<lparr>base = 0, byteOffset = 0, len = 4\<rparr>, writeOffset = 1\<rparr>"
  have v: "valid 4 ?s" by (simp add: valid_def)
  from snapshot_is_rotation[OF v] show ?thesis
    using v by (auto simp: storage_def contents_def)
qed

text \<open>
  Claim C2. For every chunk, the empty one and those longer than the capacity included, a write
  ends with \<open>writeOffset = (writeOffset_before + len(chunk)) mod capacity\<close>; a chunk whose
  length is a multiple of the capacity leaves the write offset where it was.
\<close>

theorem write_advances_offset:
  assumes "0 < cap" "0 \<le> writeOffset s" "writeOffset s < cap"
  shows "\<exists>s'. writeChunkToCircularBuffer cap chunk s = Some (Inr s') \<and>
              writeOffset s' = (writeOffset s + int (length chunk)) mod cap \<and>
              (cap dvd int (length chunk) \<longrightarrow> writeOffset s' = writeOffset s)"
proof -
  from write_loop_offset[OF assms, of 0 "length chunk" chunk]
  obtain s' where s': "writeChunkToCircularBuffer cap chunk s = Some (Inr s')"
    "writeOffset s' = (writeOffset s + int (length chunk)) mod cap"
    by (auto simp: writeChunkToCircularBuffer_def)
  have "cap dvd int (length chunk) \<Longrightarrow> (writeOffset s + int (length chunk)) mod cap = writeOffset s"
    using assms by (auto simp: dvd_def)
  with s' show ?thesis by auto
qed

theorem write_advances_offset_witness:
  "(0::int) < 4 \<and> 0 \<le> writeOffset (init 4\<lparr>writeOffset := 3\<rparr>) \<and> writeOffset (init 4\<lparr>writeOffset := 3\<rparr>) < 4 \<and>
   (\<exists>s'. writeChunkToCircularBuffer 4 [1, 2, 3, 4, 5, 6, 7, 8] (init 4\<lparr>writeOffset := 3\<rparr>) = Some (Inr s') \<and>
         writeOffset s' = 3)"
  using write_advances_offset[of 4 "init 4\<lparr>writeOffset := 3\<rparr>" "[1, 2, 3, 4, 5, 6, 7, 8]"]
  by simp

text \<open>
  Claim C3. Two ways of splitting one byte stream into chunks, written in order from the same
  state, end in the same state of the circular buffer, which is the state the write of the
  whole stream as one chunk ends in; the snapshot taken there is therefore the same.
\<close>

theorem chunking_invariance:
  assumes "valid cap s" "concat chunks = concat chunks'"
  shows "\<exists>s'. on_data cap chunks s = Some (Inr s') \<and> on_data cap chunks' s = Some (Inr s') \<and>
              writeChunkToCircularBuffer cap (concat chunks) s = Some (Inr s') \<and>
              (\<exists>snapshot t. getSnapshot cap s' = Inr (snapshot, t))"
proof -
  let ?s' = "put_bytes cap (concat chunks) s"
  have "valid cap ?s'" using assms(1) by (rule valid_put_bytes)
  then have "\<exists>snapshot t. getSnapshot cap ?s' = Inr (snapshot, t)"
    by (simp add: getSnapshot_chrono)
  moreover have "on_data cap chunks s = Some (Inr ?s')" "on_data cap chunks' s = Some (Inr ?s')"
    using assms by (simp_all add: on_data_put_bytes)
  moreover have "writeChunkToCircularBuffer cap (concat chunks) s = Some (Inr ?s')"
    using assms(1) by (rule writeChunk_put_bytes)
  ultimately show ?thesis by blast
qed

theorem chunking_invariance_witness:
  "valid 4 (init 4) \<and> concat [[1], [2, 3, 4, 5, 6], [7 :: byte]] = concat [[1, 2, 3], [], [4, 5, 6, 7]] \<and>
   (\<exists>s'. on_data 4 [[1], [2, 3, 4, 5, 6], [7]] (init 4) = Some (Inr s') \<and>
         on_data 4 [[1, 2, 3], [], [4, 5, 6, 7]] (init 4) = Some (Inr s') \<and>
         writeChunkToCircularBuffer 4 [1, 2, 3, 4, 5, 6, 7] (init 4) = Some (Inr s'))"
proof -
  have v: "valid 4 (init 4)" by (simp add: valid_init)
  have c: "concat [[1], [2, 3, 4, 5, 6], [7 :: byte]] = concat [[1, 2, 3], [], [4, 5, 6, 7]]" by simp
  from chunking_invariance[OF v c] show ?thesis using v by auto
qed

text \<open>
  Claim C4. From the freshly constructed buffer, after writes whose lengths add up to the capacity
  exactly, the snapshot is the concatenation of the written chunks in call order.
\<close>

theorem exact_fill_identity:
  assumes "0 < cap" "int (length (concat chunks)) = cap"
  shows "\<exists>s' snapshot t. on_data cap chunks (init cap) = Some (Inr s') \<and>
           getSnapshot cap s' = Inr (snapshot, t) \<and>
           contents (heap t) snapshot = concat chunks"
proof -
  have v: "valid cap (init cap)" using assms(1) by (rule valid_init)
  have "length (concat chunks) = nat cap" using assms(2) by simp
  then have "drop (length (concat chunks)) (chrono (init cap) @ concat chunks) = concat chunks"
    using assms(1) by (simp add: chrono_init)
  with snapshot_after_put_bytes[OF v, of "concat chunks"] on_data_put_bytes[OF v, of chunks]
  show ?thesis by auto
qed

theorem exact_fill_identity_witness:
  "(0::int) < 4 \<and> int (length (concat [[1], [2, 3 :: byte], [4]])) = 4 \<and>
   (\<exists>s' snapshot t. on_data 4 [[1], [2, 3], [4]] (init 4) = Some (Inr s') \<and>
      getSnapshot 4 s' = Inr (snapshot, t) \<and> contents (heap t) snapshot = [1, 2, 3, 4])"
  using exact_fill_identity[of 4 "[[1], [2, 3], [4]]"] by simp

text \<open>
  Claim C5. From the freshly constructed buffer, while fewer bytes than the capacity have been
  written, the snapshot succeeds and is \<open>capacity - written\<close> zero bytes followed by the
  written bytes in order.
\<close>

theorem cold_buffer_prefix:
  assumes "int (length (concat chunks)) < cap"
  shows "\<exists>s' snapshot t. on_data cap chunks (init cap) = Some (Inr s') \<and>
           getSnapshot cap s' = Inr (snapshot, t) \<and>
           contents (heap t) snapshot =
             replicate (nat cap - length (concat chunks)) 0 @ concat chunks"
proof -
  have c: "0 < cap" using assms by linarith
  then have v: "valid cap (init cap)" by (rule valid_init)
  have "length (concat chunks) < nat cap" using assms by linarith
  then have "drop (length (concat chunks)) (chrono (init cap) @ concat chunks)
      = replicate (nat cap - length (concat chunks)) 0 @ concat chunks"
    using c by (simp add: chrono_init)
  with snapshot_after_put_bytes[OF v, of "concat chunks"] on_data_put_bytes[OF v, of chunks]
  show ?thesis by auto
qed

theorem cold_buffer_prefix_witness:
  "int (length (concat [[1], [2, 3 :: byte]])) < 6 \<and>
   (\<exists>s' snapshot t. on_data 6 [[1], [2, 3]] (init 6) = Some (Inr s') \<and>
      getSnapshot 6 s' = Inr (snapshot, t) \<and> contents (heap t) snapshot = [0, 0, 0, 1, 2, 3])"
  using cold_buffer_prefix[of "[[1], [2, 3]]" 6] by (simp add: numeral_eq_Suc)

text \<open>
  Claim C6. After the write of a single chunk at least as long as the capacity, the snapshot is the
  last \<open>capacity\<close> bytes of the chunk, in order. With capacity 6 and the nine bytes
  \<open>0x01..0x09\<close> written at once, the snapshot is \<open>[4, 5, 6, 7, 8, 9]\<close>.
\<close>

theorem long_chunk_keeps_tail:
  assumes "valid cap s" "cap \<le> int (length chunk)"
  shows "\<exists>s' snapshot t. writeChunkToCircularBuffer cap chunk s = Some (Inr s') \<and>
           getSnapshot cap s' = Inr (snapshot, t) \<and>
           contents (heap t) snapshot = drop (length chunk - nat cap) chunk"
proof -
  have l: "length (chrono s) = nat cap" using assms(1) by (rule length_chrono)
  have "nat cap \<le> length chunk" using assms(2) by linarith
  then have "drop (length chunk) (chrono s @ chunk) = drop (length chunk - nat cap) chunk"
    using l by simp
  with snapshot_after_put_bytes[OF assms(1), of chunk] writeChunk_put_bytes[OF assms(1), of chunk]
  show ?thesis by auto
qed

theorem long_chunk_keeps_tail_witness:
  "valid 6 (init 6) \<and> (6::int) \<le> int (length [1, 2, 3, 4, 5, 6, 7, 8, 9 :: byte]) \<and>
   (\<exists>s' snapshot t. writeChunkToCircularBuffer 6 [1, 2, 3, 4, 5, 6, 7, 8, 9] (init 6) = Some (Inr s') \<and>
      getSnapshot 6 s' = Inr (snapshot, t) \<and> contents (heap t) snapshot = [4, 5, 6, 7, 8, 9])"
proof -
  have v: "valid 6 (init 6)" by (simp add: valid_init)
  have l: "(6::int) \<le> int (length [1, 2, 3, 4, 5, 6, 7, 8, 9 :: byte])" by simp
  from long_chunk_keeps_tail[OF v l] show ?thesis using v by (simp add: numeral_eq_Suc)
qed

text \<open>
  Claim C7, as amended. When the device query has succeeded and the process is not
  terminated from outside, \<^verbatim>\<open>main\<close> switches the input to the capture device first and,
  whether every stage returns or one of them throws, switches back to the original device
  exactly once, as its last action before \<^verbatim>\<open>process.exit(0)\<close>.
\<close>

theorem restore_once_without_cancellation:
  assumes "\<forall>st. env st \<noteq> Killed"
  shows "(\<exists>mid. main (Some originalInput) env =
                 SwitchInput BLACKHOLE_NAME # mid @ [SwitchInput originalInput, Exit 0] \<and>
               set mid \<subseteq> {StartFfmpeg, KillFfmpeg}) \<and>
         (originalInput \<noteq> BLACKHOLE_NAME \<longrightarrow>
            count_list (main (Some originalInput) env) (SwitchInput originalInput) = 1)"
proof -
  obtain p out pre where t: "try_block env \<lparr>trace = [], ffmpegProcess = False\<rparr> = (p, out)"
    "out \<noteq> Killed" "trace p = SwitchInput BLACKHOLE_NAME # pre" "set pre \<subseteq> {StartFfmpeg}"
    using try_block_trace[OF assms] by blast
  obtain post where f: "trace (finally_block env originalInput p)
      = trace p @ post @ [SwitchInput originalInput, Exit 0]" "set post \<subseteq> {KillFfmpeg}"
    using finally_block_trace[OF assms] by blast
  have m: "main (Some originalInput) env =
           SwitchInput BLACKHOLE_NAME # (pre @ post) @ [SwitchInput originalInput, Exit 0]"
    using t(1,2,3) f(1) by (cases out) (simp_all add: main_def)
  have mid: "set (pre @ post) \<subseteq> {StartFfmpeg, KillFfmpeg}" using t(4) f(2) by auto
  have "count_list (main (Some originalInput) env) (SwitchInput originalInput) = 1"
    if "originalInput \<noteq> BLACKHOLE_NAME"
  proof -
    have "SwitchInput originalInput \<notin> set (pre @ post)" using mid by auto
    then have "count_list (pre @ post) (SwitchInput originalInput) = 0"
      by (simp add: count_list_0_iff)
    with that show ?thesis unfolding m by simp
  qed
  with m mid show ?thesis by blast
qed

theorem restore_once_without_cancellation_witness:
  "(\<forall>st. (uneventful(Recognize := Throws)) st \<noteq> Killed) \<and>
   main (Some ''MacBook Pro Microphone'') (uneventful(Recognize := Throws)) =
     [SwitchInput BLACKHOLE_NAME, StartFfmpeg, KillFfmpeg,
      SwitchInput ''MacBook Pro Microphone'', Exit 0] \<and>
   ''MacBook Pro Microphone'' \<noteq> BLACKHOLE_NAME \<and>
   count_list (main (Some ''MacBook Pro Microphone'') (uneventful(Recognize := Throws)))
     (SwitchInput ''MacBook Pro Microphone'') = 1"
proof -
  have a: "\<forall>st. (uneventful(Recognize := Throws)) st \<noteq> Killed" by (simp add: uneventful_def)
  have b: "''MacBook Pro Microphone'' \<noteq> BLACKHOLE_NAME" by (simp add: BLACKHOLE_NAME_def)
  have c: "main (Some ''MacBook Pro Microphone'') (uneventful(Recognize := Throws)) =
     [SwitchInput BLACKHOLE_NAME, StartFfmpeg, KillFfmpeg,
      SwitchInput ''MacBook Pro Microphone'', Exit 0]"
    by (simp add: main_def try_block_def and_then_def switchInput_def
        startContinuousRecording_def perform_def finally_block_def uneventful_def)
  from restore_once_without_cancellation[OF a, of "''MacBook Pro Microphone''"] b
  have "count_list (main (Some ''MacBook Pro Microphone'') (uneventful(Recognize := Throws)))
     (SwitchInput ''MacBook Pro Microphone'') = 1"
    by blast
  with a b c show ?thesis by (intro conjI)
qed

text \<open>
  Claim C7 as it is stated fails for the cancellation from outside: a process terminated
  during the warm-up has switched the input to the capture device and started the capture,
  and ends without the switch back to the original device.
\<close>

theorem restore_skipped_on_cancellation:
  "main (Some ''MacBook Pro Microphone'') (uneventful(WarmUp := Killed)) =
     [SwitchInput BLACKHOLE_NAME, StartFfmpeg] \<and>
   count_list (main (Some ''MacBook Pro Microphone'') (uneventful(WarmUp := Killed)))
     (SwitchInput ''MacBook Pro Microphone'') = 0"
  by (simp add: main_def try_block_def and_then_def switchInput_def startContinuousRecording_def
      perform_def uneventful_def BLACKHOLE_NAME_def)

text \<open>
  Claim C8. \<open>0 \<le> writeOffset < capacity\<close> holds for the freshly constructed buffer and every write,
  of a chunk of any length, keeps it; it holds after every sequence of writes, however
  many bytes they add up to.
\<close>

theorem writeOffset_in_range:
  assumes "0 < cap"
  shows "0 \<le> writeOffset (init cap) \<and> writeOffset (init cap) < cap \<and>
         (\<forall>s chunk. 0 \<le> writeOffset s \<and> writeOffset s < cap \<longrightarrow>
            (\<exists>s'. writeChunkToCircularBuffer cap chunk s = Some (Inr s') \<and>
                  0 \<le> writeOffset s' \<and> writeOffset s' < cap)) \<and>
         (\<forall>chunks. \<exists>s'. on_data cap chunks (init cap) = Some (Inr s') \<and>
                  0 \<le> writeOffset s' \<and> writeOffset s' < cap)"
proof (intro conjI allI impI)
  show "0 \<le> writeOffset (init cap)" by (simp add: init_def Buffer_alloc_def)
  show "writeOffset (init cap) < cap" using assms by (simp add: init_def Buffer_alloc_def)
next
  fix s :: state and chunk :: "byte list"
  assume "0 \<le> writeOffset s \<and> writeOffset s < cap"
  with assms show "\<exists>s'. writeChunkToCircularBuffer cap chunk s = Some (Inr s') \<and>
                  0 \<le> writeOffset s' \<and> writeOffset s' < cap"
    by (rule write_offset_range)
next
  fix chunks
  show "\<exists>s'. on_data cap chunks (init cap) = Some (Inr s') \<and>
                  0 \<le> writeOffset s' \<and> writeOffset s' < cap"
    using assms by (rule on_data_offset_range)
qed

theorem writeOffset_in_range_witness:
  "(0::int) < 4 \<and> writeOffset (init 4) = 0 \<and>
   (\<exists>s'. writeChunkToCircularBuffer 4 [1, 2, 3, 4, 5, 6, 7, 8, 9, 10, 11]
           (init 4\<lparr>writeOffset := 3\<rparr>) = Some (Inr s') \<and>
         0 \<le> writeOffset s' \<and> writeOffset s' < 4) \<and>
   (\<exists>s'. on_data 4 [[1, 2, 3], [4, 5, 6, 7]] (init 4) = Some (Inr s') \<and>
         0 \<le> writeOffset s' \<and> writeOffset s' < 4)"
proof -
  have c: "(0::int) < 4" by simp
  note t = writeOffset_in_range[OF c]
  have r: "0 \<le> writeOffset (init 4\<lparr>writeOffset := 3\<rparr>) \<and> writeOffset (init 4\<lparr>writeOffset := 3\<rparr>) < 4"
    by simp
  have w: "\<exists>s'. writeChunkToCircularBuffer 4 [1, 2, 3, 4, 5, 6, 7, 8, 9, 10, 11]
           (init 4\<lparr>writeOffset := 3\<rparr>) = Some (Inr s') \<and>
         0 \<le> writeOffset s' \<and> writeOffset s' < 4"
    using t[THEN conjunct2, THEN conjunct2, THEN conjunct1, rule_format, OF r] .
  have d: "\<exists>s'. on_data 4 [[1, 2, 3], [4, 5, 6, 7]] (init 4) = Some (Inr s') \<and>
         0 \<le> writeOffset s' \<and> writeOffset s' < 4"
    using t[THEN conjunct2, THEN conjunct2, THEN conjunct2, rule_format] .
  have i: "writeOffset (init 4) = 0" by (simp add: init_def Buffer_alloc_def)
  from c i w d show ?thesis by (intro conjI)
qed

text \<open>
  Claim C9. \<^verbatim>\<open>getSnapshot\<close> leaves the storage and the write offset as they were and returns a
  buffer on a newly allocated array; after any number of snapshots, a write has the effect
  on the storage and on the write offset that it has without them, and the snapshot taken
  after it is the same.
\<close>

theorem snapshot_leaves_ring_unchanged:
  assumes "valid cap s"
  shows "(\<exists>snapshot s'. getSnapshot cap s = Inr (snapshot, s') \<and>
            circularBuffer s' = circularBuffer s \<and> writeOffset s' = writeOffset s \<and>
            storage s' = storage s \<and> take (length (heap s)) (heap s') = heap s \<and>
            base snapshot = length (heap s)) \<and>
         (\<forall>n chunk. \<exists>t w w' snapshot u snapshot' u'.
            snapshots n cap s = Inr t \<and>
            writeChunkToCircularBuffer cap chunk s = Some (Inr w) \<and>
            writeChunkToCircularBuffer cap chunk t = Some (Inr w') \<and>
            storage w' = storage w \<and> writeOffset w' = writeOffset w \<and>
            getSnapshot cap w = Inr (snapshot, u) \<and> getSnapshot cap w' = Inr (snapshot', u') \<and>
            contents (heap u') snapshot' = contents (heap u) snapshot)"
proof (intro conjI allI)
  obtain snapshot s' where g: "getSnapshot cap s = Inr (snapshot, s')"
    and b: "base snapshot = length (heap s)"
    using getSnapshot_chrono[OF assms] by simp
  note f = getSnapshot_frame[OF assms g]
  show "\<exists>snapshot s'. getSnapshot cap s = Inr (snapshot, s') \<and>
            circularBuffer s' = circularBuffer s \<and> writeOffset s' = writeOffset s \<and>
            storage s' = storage s \<and> take (length (heap s)) (heap s') = heap s \<and>
            base snapshot = length (heap s)"
    using g b f by simp
next
  fix n and chunk :: "byte list"
  show "\<exists>t w w' snapshot u snapshot' u'.
            snapshots n cap s = Inr t \<and>
            writeChunkToCircularBuffer cap chunk s = Some (Inr w) \<and>
            writeChunkToCircularBuffer cap chunk t = Some (Inr w') \<and>
            storage w' = storage w \<and> writeOffset w' = writeOffset w \<and>
            getSnapshot cap w = Inr (snapshot, u) \<and> getSnapshot cap w' = Inr (snapshot', u') \<and>
            contents (heap u') snapshot' = contents (heap u) snapshot"
    using assms by (rule write_after_snapshots)
qed

theorem snapshot_leaves_ring_unchanged_witness:
  "valid 4 (init 4) \<and>
   (\<exists>snapshot s'. getSnapshot 4 (init 4) = Inr (snapshot, s') \<and>
      circularBuffer s' = circularBuffer (init 4) \<and> writeOffset s' = 0 \<and>
      storage s' = [0, 0, 0, 0] \<and> base snapshot = 1) \<and>
   (\<exists>t w w'. snapshots 3 4 (init 4) = Inr t \<and>
      writeChunkToCircularBuffer 4 [1, 2, 3, 4, 5] (init 4) = Some (Inr w) \<and>
      writeChunkToCircularBuffer 4 [1, 2, 3, 4, 5] t = Some (Inr w') \<and>
      storage w' = storage w \<and> writeOffset w' = writeOffset w)"
proof -
  have v: "valid 4 (init 4)" by (simp add: valid_init)
  note t = snapshot_leaves_ring_unchanged[OF v]
  have i: "writeOffset (init 4) = 0" "storage (init 4) = [0, 0, 0, 0]" "length (heap (init 4)) = 1"
    by (simp_all add: init_def Buffer_alloc_def storage_def contents_def numeral_eq_Suc)
  from t[THEN conjunct1] have a: "\<exists>snapshot s'. getSnapshot 4 (init 4) = Inr (snapshot, s') \<and>
      circularBuffer s' = circularBuffer (init 4) \<and> writeOffset s' = 0 \<and>
      storage s' = [0, 0, 0, 0] \<and> base snapshot = 1"
    unfolding i by blast
  from t[THEN conjunct2, rule_format, of 3 "[1, 2, 3, 4, 5]"]
  have b: "\<exists>t w w'. snapshots 3 4 (init 4) = Inr t \<and>
      writeChunkToCircularBuffer 4 [1, 2, 3, 4, 5] (init 4) = Some (Inr w) \<and>
      writeChunkToCircularBuffer 4 [1, 2, 3, 4, 5] t = Some (Inr w') \<and>
      storage w' = storage w \<and> writeOffset w' = writeOffset w"
    by blast
  from v a b show ?thesis by (intro conjI)
qed

text \<open>
  Claim C10. With \<open>capacity > 0\<close> and \<open>0 \<le> writeOffset < capacity\<close> on entry, the copy loop of the
  write ends, whatever the values of its loop variables, and the write of every chunk
  returns a state.
\<close>

theorem write_loop_terminates:
  assumes "0 < cap" "0 \<le> writeOffset s" "writeOffset s < cap"
  shows "(\<forall>remaining chunkOffset. \<exists>r. write_loop cap chunk remaining chunkOffset s = Some r) \<and>
         (\<exists>s'. writeChunkToCircularBuffer cap chunk s = Some (Inr s'))"
proof (intro conjI allI)
  fix remaining chunkOffset
  show "\<exists>r. write_loop cap chunk remaining chunkOffset s = Some r"
    using assms by (rule write_loop_total)
next
  from write_loop_offset[OF assms, of 0 "length chunk" chunk]
  show "\<exists>s'. writeChunkToCircularBuffer cap chunk s = Some (Inr s')"
    by (auto simp: writeChunkToCircularBuffer_def)
qed

theorem write_loop_terminates_witness:
  "(0::int) < 4 \<and> 0 \<le> writeOffset (init 4) \<and> writeOffset (init 4) < 4 \<and>
   (\<exists>r. write_loop 4 [1, 2, 3, 4, 5, 6] 6 0 (init 4) = Some r) \<and>
   (\<exists>s'. writeChunkToCircularBuffer 4 [1, 2, 3, 4, 5, 6] (init 4) = Some (Inr s'))"
proof -
  have a: "(0::int) < 4" "0 \<le> writeOffset (init 4)" "writeOffset (init 4) < 4"
    by (simp_all add: init_def Buffer_alloc_def)
  note t = write_loop_terminates[OF a, of "[1, 2, 3, 4, 5, 6]"]
  have l: "\<exists>r. write_loop 4 [1, 2, 3, 4, 5, 6] 6 0 (init 4) = Some r"
    using t[THEN conjunct1, rule_format] .
  from a l t[THEN conjunct2] show ?thesis by (intro conjI)
qed

end
